theory Spec2Isabelle
  imports Main "HOL-Library.Word"
begin

section \<open>Spin locks and nested interrupt disabling (kernel/spinlock.c)\<close>

subsection \<open>Data\<close>

text \<open>
  A core is named by its hart id. A lock is named by the address of its
  \<^verbatim>\<open>struct spinlock\<close>; two different addresses are two different locks.
\<close>

type_synonym core = nat
type_synonym lockid = nat

text \<open>
  Modelled from the spec: \<^verbatim>\<open>struct spinlock\<close> is declared in spinlock.h, which is
  not among the sources. The spec's Spinlock has a diagnostic \<open>name\<close>, the lock word
  \<open>locked\<close> and the \<open>owner\<close>; spinlock.c calls the owner field \<open>cpu\<close>, a pointer to the
  per-core record of the holder, with the null pointer for "no owner".
\<close>

record spinlock =
  locked :: "32 word"
  name :: string
  cpu :: "core option"

text \<open>
  Modelled from the spec: \<^verbatim>\<open>struct cpu\<close> is declared in proc.h, which is not among the
  sources. The spec's Per-Core Record has \<open>nest_count\<close>, a non-negative integer
  (\<open>noff\<close> in spinlock.c), and the boolean \<open>saved_interrupts_enabled\<close> (\<open>intena\<close>).
\<close>

record cpu =
  noff :: nat
  intena :: bool

text \<open>
  The trace lists, oldest first, what a core did to memory shared with other cores and to
  its own interrupt state: every access to a field of a lock, every fence, every change of
  the interrupt-enable bit and every write to the per-core record.
\<close>

datatype event =
    Intr_off
  | Intr_on
  | Store_intena bool
  | Store_noff nat
  | Load_locked lockid "32 word"
  | Load_cpu lockid "core option"
  | Store_name lockid string
  | Store_locked lockid "32 word"
  | Store_cpu lockid "core option"
  | Test_and_set lockid "32 word" "32 word"
  | Lock_release lockid
  | Synchronize

record machine =
  locks :: "lockid \<Rightarrow> spinlock"
  cpus :: "core \<Rightarrow> cpu"
  sie :: "core \<Rightarrow> bool"
  trace :: "(core \<times> event) list"

text \<open>
  A call either returns or stops in \<^verbatim>\<open>panic\<close>. Modelled from the spec: \<^verbatim>\<open>panic\<close> is
  defined outside the sources; it is the fatal-error primitive that "halts forward
  progress and surfaces a diagnostic message". The machine in \<open>Panicked\<close> is the state
  in which the core stopped.
\<close>

datatype outcome = Returned machine | Panicked string machine

fun state_of :: "outcome \<Rightarrow> machine" where
  "state_of (Returned m) = m"
| "state_of (Panicked msg m) = m"

fun panicked :: "outcome \<Rightarrow> bool" where
  "panicked (Returned m) = False"
| "panicked (Panicked msg m) = True"

subsection \<open>The primitives spinlock.c is built on\<close>

definition emit :: "core \<Rightarrow> event \<Rightarrow> machine \<Rightarrow> machine" where
  "emit c e m = m\<lparr>trace := trace m @ [(c, e)]\<rparr>"

text \<open>
  Modelled from the spec: \<^verbatim>\<open>mycpu\<close> (proc.c) is the per-core identity query; it returns
  the calling core's Per-Core Record.
\<close>

definition mycpu :: "core \<Rightarrow> machine \<Rightarrow> cpu" where
  "mycpu c m = cpus m c"

text \<open>
  Modelled from the spec: \<^verbatim>\<open>intr_get\<close>, \<^verbatim>\<open>intr_off\<close> and \<^verbatim>\<open>intr_on\<close> (riscv.h) query,
  unconditionally disable and unconditionally enable interrupts, on the calling core only.
\<close>

definition intr_get :: "core \<Rightarrow> machine \<Rightarrow> bool" where
  "intr_get c m = sie m c"

definition intr_off :: "core \<Rightarrow> machine \<Rightarrow> machine" where
  "intr_off c m = emit c Intr_off (m\<lparr>sie := (sie m)(c := False)\<rparr>)"

definition intr_on :: "core \<Rightarrow> machine \<Rightarrow> machine" where
  "intr_on c m = emit c Intr_on (m\<lparr>sie := (sie m)(c := True)\<rparr>)"

text \<open>Writes to the two fields of the calling core's record.\<close>

definition store_intena :: "core \<Rightarrow> bool \<Rightarrow> machine \<Rightarrow> machine" where
  "store_intena c v m = emit c (Store_intena v) (m\<lparr>cpus := (cpus m)(c := (cpus m c)\<lparr>intena := v\<rparr>)\<rparr>)"

definition store_noff :: "core \<Rightarrow> nat \<Rightarrow> machine \<Rightarrow> machine" where
  "store_noff c v m = emit c (Store_noff v) (m\<lparr>cpus := (cpus m)(c := (cpus m c)\<lparr>noff := v\<rparr>)\<rparr>)"

text \<open>Plain loads and stores of the fields of a lock.\<close>

definition load_locked :: "core \<Rightarrow> lockid \<Rightarrow> machine \<Rightarrow> 32 word \<times> machine" where
  "load_locked c lk m = (locked (locks m lk), emit c (Load_locked lk (locked (locks m lk))) m)"

definition load_cpu :: "core \<Rightarrow> lockid \<Rightarrow> machine \<Rightarrow> core option \<times> machine" where
  "load_cpu c lk m = (cpu (locks m lk), emit c (Load_cpu lk (cpu (locks m lk))) m)"

definition store_name :: "core \<Rightarrow> lockid \<Rightarrow> string \<Rightarrow> machine \<Rightarrow> machine" where
  "store_name c lk v m = emit c (Store_name lk v) (m\<lparr>locks := (locks m)(lk := (locks m lk)\<lparr>name := v\<rparr>)\<rparr>)"

definition store_locked :: "core \<Rightarrow> lockid \<Rightarrow> 32 word \<Rightarrow> machine \<Rightarrow> machine" where
  "store_locked c lk v m = emit c (Store_locked lk v) (m\<lparr>locks := (locks m)(lk := (locks m lk)\<lparr>locked := v\<rparr>)\<rparr>)"

definition store_cpu :: "core \<Rightarrow> lockid \<Rightarrow> core option \<Rightarrow> machine \<Rightarrow> machine" where
  "store_cpu c lk v m = emit c (Store_cpu lk v) (m\<lparr>locks := (locks m)(lk := (locks m lk)\<lparr>cpu := v\<rparr>)\<rparr>)"

text \<open>
  The compiler builtins. \<^verbatim>\<open>__sync_lock_test_and_set(&lk->locked, v)\<close> writes \<open>v\<close> to the
  lock word and returns what the word held, in one indivisible step (amoswap.w.aq);
  \<^verbatim>\<open>__sync_lock_release(&lk->locked)\<close> writes 0 to it in one indivisible step (amoswap.w);
  \<^verbatim>\<open>__sync_synchronize()\<close> is the full fence, which changes no value.
\<close>

definition sync_lock_test_and_set :: "core \<Rightarrow> lockid \<Rightarrow> 32 word \<Rightarrow> machine \<Rightarrow> 32 word \<times> machine" where
  "sync_lock_test_and_set c lk v m =
     (locked (locks m lk),
      emit c (Test_and_set lk v (locked (locks m lk)))
        (m\<lparr>locks := (locks m)(lk := (locks m lk)\<lparr>locked := v\<rparr>)\<rparr>))"

definition sync_lock_release :: "core \<Rightarrow> lockid \<Rightarrow> machine \<Rightarrow> machine" where
  "sync_lock_release c lk m =
     emit c (Lock_release lk) (m\<lparr>locks := (locks m)(lk := (locks m lk)\<lparr>locked := 0\<rparr>)\<rparr>)"

definition sync_synchronize :: "core \<Rightarrow> machine \<Rightarrow> machine" where
  "sync_synchronize c m = emit c Synchronize m"

subsection \<open>initlock, holding, push_off, pop_off\<close>

definition initlock :: "core \<Rightarrow> lockid \<Rightarrow> string \<Rightarrow> machine \<Rightarrow> machine" where
  "initlock c lk nm m = store_cpu c lk None (store_locked c lk 0 (store_name c lk nm m))"

text \<open>
  \<^verbatim>\<open>lk->locked && lk->cpu == mycpu()\<close>: the owner is read only when the lock word is
  not zero.
\<close>

definition holding :: "core \<Rightarrow> lockid \<Rightarrow> machine \<Rightarrow> bool \<times> machine" where
  "holding c lk m =
     (case load_locked c lk m of (w, m1) \<Rightarrow>
        if w \<noteq> 0 then (case load_cpu c lk m1 of (p, m2) \<Rightarrow> (p = Some c, m2))
        else (False, m1))"

definition push_off :: "core \<Rightarrow> machine \<Rightarrow> machine" where
  "push_off c m =
     (let old = intr_get c m;
          m1 = intr_off c m;
          m2 = (if noff (mycpu c m1) = 0 then store_intena c old m1 else m1)
      in store_noff c (noff (mycpu c m2) + 1) m2)"

definition pop_off :: "core \<Rightarrow> machine \<Rightarrow> outcome" where
  "pop_off c m =
     (if intr_get c m then Panicked ''pop_off - interruptible'' m
      else if noff (mycpu c m) < 1 then Panicked ''pop_off'' m
      else let m1 = store_noff c (noff (mycpu c m) - 1) m
           in if noff (mycpu c m1) = 0 \<and> intena (mycpu c m1) then Returned (intr_on c m1)
              else Returned m1)"

subsection \<open>acquire and release\<close>

text \<open>
  While a core spins, the other cores run. What they do to the lock being acquired is a
  list of changes to that lock: the first is applied before the first exchange, the second
  before the second exchange, and so on; after the last, the other cores leave the lock
  alone. The per-core records and the interrupt-enable bits are private to their core, so
  the other cores do not change those of the spinning core.
\<close>

type_synonym interference = "(spinlock \<Rightarrow> spinlock) list"

definition interfere :: "lockid \<Rightarrow> interference \<Rightarrow> machine \<Rightarrow> machine" where
  "interfere lk es m =
     (case es of [] \<Rightarrow> m | e # _ \<Rightarrow> m\<lparr>locks := (locks m)(lk := e (locks m lk))\<rparr>)"

text \<open>
  \<^verbatim>\<open>while(__sync_lock_test_and_set(&lk->locked, 1) != 0) ;\<close>
  The loop has no bound: \<open>None\<close> is the loop that never exits.
\<close>

partial_function (option) spin :: "core \<Rightarrow> lockid \<Rightarrow> interference \<Rightarrow> machine \<Rightarrow> machine option" where
  "spin c lk es m =
     (case sync_lock_test_and_set c lk 1 (interfere lk es m) of (old, m1) \<Rightarrow>
        if old \<noteq> 0 then spin c lk (tl es) m1 else Some m1)"

definition acquire :: "core \<Rightarrow> lockid \<Rightarrow> interference \<Rightarrow> machine \<Rightarrow> outcome option" where
  "acquire c lk es m =
     (let m1 = push_off c m
      in case holding c lk m1 of (h, m2) \<Rightarrow>
           if h then Some (Panicked ''acquire'' m2)
           else (case spin c lk es m2 of
                   None \<Rightarrow> None
                 | Some m3 \<Rightarrow> Some (Returned (store_cpu c lk (Some c) (sync_synchronize c m3)))))"

definition release :: "core \<Rightarrow> lockid \<Rightarrow> machine \<Rightarrow> outcome" where
  "release c lk m =
     (case holding c lk m of (h, m1) \<Rightarrow>
        if \<not> h then Panicked ''release'' m1
        else pop_off c (sync_lock_release c lk (sync_synchronize c (store_cpu c lk None m1))))"

text \<open>
  The lock word that each exchange of the loop reads, counted from 0, as long as no
  earlier exchange has read 0: the other cores' next change is applied to the lock, the
  exchange reads its word and leaves 1 in it. \<open>l\<close> is the lock when the loop starts.
\<close>

fun observed :: "interference \<Rightarrow> spinlock \<Rightarrow> nat \<Rightarrow> 32 word" where
  "observed es l 0 = locked (case es of [] \<Rightarrow> l | e # _ \<Rightarrow> e l)"
| "observed es l (Suc k) =
     observed (tl es) ((case es of [] \<Rightarrow> l | e # _ \<Rightarrow> e l)\<lparr>locked := 1\<rparr>) k"

subsection \<open>What each operation appends to the trace\<close>

text \<open>The loads of \<^verbatim>\<open>holding\<close>, in the order it performs them.\<close>

definition holding_events :: "lockid \<Rightarrow> machine \<Rightarrow> event list" where
  "holding_events lk m =
     (if locked (locks m lk) \<noteq> 0
      then [Load_locked lk (locked (locks m lk)), Load_cpu lk (cpu (locks m lk))]
      else [Load_locked lk (locked (locks m lk))])"

text \<open>The steps of \<^verbatim>\<open>push_off\<close>, in the order it performs them.\<close>

definition push_off_events :: "core \<Rightarrow> machine \<Rightarrow> event list" where
  "push_off_events c m =
     (if noff (cpus m c) = 0
      then [Intr_off, Store_intena (sie m c), Store_noff (noff (cpus m c) + 1)]
      else [Intr_off, Store_noff (noff (cpus m c) + 1)])"

subsection \<open>Sequences of calls made by one core\<close>

datatype call =
    Initlock lockid string
  | Acquire lockid interference
  | Release lockid
  | Holding lockid
  | Push_off
  | Pop_off

fun do_call :: "core \<Rightarrow> call \<Rightarrow> machine \<Rightarrow> outcome option" where
  "do_call c (Initlock lk nm) m = Some (Returned (initlock c lk nm m))"
| "do_call c (Acquire lk es) m = acquire c lk es m"
| "do_call c (Release lk) m = Some (release c lk m)"
| "do_call c (Holding lk) m = Some (Returned (snd (holding c lk m)))"
| "do_call c Push_off m = Some (Returned (push_off c m))"
| "do_call c Pop_off m = Some (pop_off c m)"

text \<open>The calls run one after the other; the first that panics or never returns ends the run.\<close>

fun run :: "core \<Rightarrow> call list \<Rightarrow> machine \<Rightarrow> outcome option" where
  "run c [] m = Some (Returned m)"
| "run c (x # xs) m =
     (case do_call c x m of
        Some (Returned m1) \<Rightarrow> run c xs m1
      | r \<Rightarrow> r)"

text \<open>A call leaves a lock alone when it is not an initlock, acquire or release of that lock.\<close>

fun leaves :: "lockid \<Rightarrow> call \<Rightarrow> bool" where
  "leaves lk (Initlock l nm) = (l \<noteq> lk)"
| "leaves lk (Acquire l es) = (l \<noteq> lk)"
| "leaves lk (Release l) = (l \<noteq> lk)"
| "leaves lk (Holding l) = True"
| "leaves lk Push_off = True"
| "leaves lk Pop_off = True"

text \<open>
  A sequence of \<^verbatim>\<open>push_off\<close> and \<^verbatim>\<open>pop_off\<close> calls is balanced when every pop has an
  earlier push of its own and no push is left open at the end; \<open>d\<close> counts the open pushes.
\<close>

fun nested :: "nat \<Rightarrow> call list \<Rightarrow> bool" where
  "nested d [] = (d = 0)"
| "nested d (Push_off # xs) = nested (Suc d) xs"
| "nested d (Pop_off # xs) = (case d of 0 \<Rightarrow> False | Suc k \<Rightarrow> nested k xs)"
| "nested d (x # xs) = False"

definition balanced :: "call list \<Rightarrow> bool" where
  "balanced xs = nested 0 xs"

text \<open>
  A machine in which nothing has happened yet: every lock free and without owner, every
  nesting counter zero, interrupts disabled on every core.
\<close>

definition machine0 :: machine where
  "machine0 = \<lparr>locks = (\<lambda>lk. \<lparr>locked = 0, name = [], cpu = None\<rparr>),
               cpus = (\<lambda>c. \<lparr>noff = 0, intena = False\<rparr>),
               sie = (\<lambda>c. False),
               trace = []\<rparr>"

text \<open>
  A machine in which core \<open>c\<close> holds lock \<open>lk\<close>, taken from an interruptible state: the
  lock word set, \<open>c\<close> recorded as owner, one level of nesting with interrupts saved as
  enabled, interrupts disabled. Its trace starts empty.
\<close>

definition machine_held :: "core \<Rightarrow> lockid \<Rightarrow> machine" where
  "machine_held c lk =
     machine0\<lparr>locks := (locks machine0)(lk := \<lparr>locked = 1, name = ''lk'', cpu = Some c\<rparr>),
              cpus := (cpus machine0)(c := \<lparr>noff = 1, intena = True\<rparr>)\<rparr>"

text \<open>The nesting counter of core \<open>c\<close> once a call has returned.\<close>

definition counter_after :: "core \<Rightarrow> outcome option \<Rightarrow> nat option" where
  "counter_after c r = (case r of Some (Returned m) \<Rightarrow> Some (noff (cpus m c)) | _ \<Rightarrow> None)"


section \<open>Timer setup at boot (timerinit)\<close>

text \<open>
  What \<^verbatim>\<open>timerinit\<close> reads and writes on the hart that runs it: its hart id, the
  memory-mapped registers of the core-local interruptor (64-bit cells, by address), the
  array \<^verbatim>\<open>uint64 timer_scratch[NCPU][5]\<close>, and four machine-mode registers.
\<close>

record hart =
  mhartid :: "64 word"
  mem :: "64 word \<Rightarrow> 64 word"
  timer_scratch :: "nat \<Rightarrow> nat \<Rightarrow> 64 word"
  mscratch :: "64 word"
  mtvec :: "64 word"
  mstatus :: "64 word"
  mie :: "64 word"

text \<open>
  The constants and macros of param.h, memlayout.h and riscv.h and the addresses fixed by
  the linker are not among the sources; they are parameters here. \<open>CLINT_MTIMECMP\<close> maps
  a hart id to the address of that hart's comparator register, \<open>CLINT_MTIME\<close> is the
  address of the timer count, \<open>timer_scratch_addr i\<close> is the address of
  \<^verbatim>\<open>timer_scratch[i][0]\<close> and \<open>timervec\<close> the address of the trap vector.
\<close>

record platform =
  NCPU :: nat
  CLINT_MTIMECMP :: "int \<Rightarrow> 64 word"
  CLINT_MTIME :: "64 word"
  MSTATUS_MIE :: "64 word"
  MIE_MTIE :: "64 word"
  timervec :: "64 word"
  timer_scratch_addr :: "nat \<Rightarrow> 64 word"

text \<open>\<^verbatim>\<open>int id = r_mhartid();\<close> keeps the low 32 bits of the register, read as signed.\<close>

definition hartid :: "hart \<Rightarrow> int" where
  "hartid s = sint (ucast (mhartid s) :: 32 word)"

text \<open>\<^verbatim>\<open>int interval = 1000000;\<close>\<close>

definition interval :: "32 word" where
  "interval = 1000000"

text \<open>
  The comparator is written first. Indexing \<^verbatim>\<open>timer_scratch\<close> with a hart id outside
  \<open>0 ..< NCPU\<close> is undefined in C: the model gives \<open>None\<close> there. An \<^verbatim>\<open>int\<close> becomes a
  \<^verbatim>\<open>uint64\<close> by sign extension (\<open>scast\<close>).
\<close>

definition timerinit :: "platform \<Rightarrow> hart \<Rightarrow> hart option" where
  "timerinit p s =
     (let id = hartid s;
          s1 = s\<lparr>mem := (mem s)(CLINT_MTIMECMP p id := mem s (CLINT_MTIME p) + scast interval)\<rparr>
      in if id < 0 \<or> int (NCPU p) \<le> id then None
         else
           let i = nat id;
               s2 = s1\<lparr>timer_scratch :=
                        (timer_scratch s1)(i := (timer_scratch s1 i)(3 := CLINT_MTIMECMP p id))\<rparr>;
               s3 = s2\<lparr>timer_scratch :=
                        (timer_scratch s2)(i := (timer_scratch s2 i)(4 := scast interval))\<rparr>;
               s4 = s3\<lparr>mscratch := timer_scratch_addr p i\<rparr>;
               s5 = s4\<lparr>mtvec := timervec p\<rparr>;
               s6 = s5\<lparr>mstatus := or (mstatus s5) (MSTATUS_MIE p)\<rparr>;
               s7 = s6\<lparr>mie := or (mie s6) (MIE_MTIE p)\<rparr>
           in Some s7)"

text \<open>
  A platform with the addresses of the qemu "virt" board, and hart 2 of it at boot with
  the timer count at 5000.
\<close>

definition virt :: platform where
  "virt = \<lparr>NCPU = 8,
           CLINT_MTIMECMP = (\<lambda>i. 0x2004000 + 8 * word_of_int i),
           CLINT_MTIME = 0x200BFF8,
           MSTATUS_MIE = 8,
           MIE_MTIE = 128,
           timervec = 0x80005000,
           timer_scratch_addr = (\<lambda>i. 0x80009000 + 40 * word_of_nat i)\<rparr>"

definition hart2 :: hart where
  "hart2 = \<lparr>mhartid = 2,
            mem = (\<lambda>a. if a = 0x200BFF8 then 5000 else 0),
            timer_scratch = (\<lambda>i j. 0),
            mscratch = 0, mtvec = 0, mstatus = 0, mie = 0\<rparr>"

section \<open>Properties\<close>

subsection \<open>What the primitives, holding, push_off and pop_off change\<close>

lemmas prim_defs = emit_def mycpu_def intr_get_def intr_off_def intr_on_def store_intena_def
  store_noff_def load_locked_def load_cpu_def store_name_def store_locked_def store_cpu_def
  sync_lock_test_and_set_def sync_lock_release_def sync_synchronize_def

lemma machine0_fields:
  "locks machine0 lk = \<lparr>locked = 0, name = [], cpu = None\<rparr>"
  "cpus machine0 c = \<lparr>noff = 0, intena = False\<rparr>"
  "sie machine0 c = False"
  "trace machine0 = []"
  by (simp_all add: machine0_def)

lemma machine_held_fields:
  "locks (machine_held c lk) l =
     (if l = lk then \<lparr>locked = 1, name = ''lk'', cpu = Some c\<rparr>
      else \<lparr>locked = 0, name = [], cpu = None\<rparr>)"
  "cpus (machine_held c lk) d =
     (if d = c then \<lparr>noff = 1, intena = True\<rparr> else \<lparr>noff = 0, intena = False\<rparr>)"
  "sie (machine_held c lk) d = False"
  "trace (machine_held c lk) = []"
  by (simp_all add: machine_held_def machine0_def)

lemma holding_fst: "fst (holding c lk m) = (locked (locks m lk) \<noteq> 0 \<and> cpu (locks m lk) = Some c)"
  by (simp add: holding_def prim_defs)

lemma holding_snd:
  "locks (snd (holding c lk m)) = locks m"
  "cpus (snd (holding c lk m)) = cpus m"
  "sie (snd (holding c lk m)) = sie m"
  "trace (snd (holding c lk m)) = trace m @ map (Pair c) (holding_events lk m)"
  by (simp_all add: holding_def holding_events_def prim_defs)

lemma push_off_fields:
  "locks (push_off c m) = locks m"
  "sie (push_off c m) = (sie m)(c := False)"
  "noff (cpus (push_off c m) c) = noff (cpus m c) + 1"
  "intena (cpus (push_off c m) c) = (if noff (cpus m c) = 0 then sie m c else intena (cpus m c))"
  "d \<noteq> c \<Longrightarrow> cpus (push_off c m) d = cpus m d"
  "trace (push_off c m) = trace m @ map (Pair c) (push_off_events c m)"
  by (simp_all add: push_off_def push_off_events_def Let_def prim_defs)

lemma holding_push_off: "fst (holding c lk (push_off c m)) = fst (holding c lk m)"
  by (simp add: holding_fst push_off_fields)

lemma pop_off_fields:
  assumes "\<not> sie m c" "0 < noff (cpus m c)"
  shows "\<exists>m'. pop_off c m = Returned m'
     \<and> noff (cpus m' c) = noff (cpus m c) - 1
     \<and> intena (cpus m' c) = intena (cpus m c)
     \<and> sie m' c = (noff (cpus m c) = 1 \<and> intena (cpus m c))
     \<and> locks m' = locks m
     \<and> (\<forall>d. d \<noteq> c \<longrightarrow> cpus m' d = cpus m d \<and> sie m' d = sie m d)
     \<and> trace m' = trace m @ map (Pair c)
          (if noff (cpus m c) = 1 \<and> intena (cpus m c)
           then [Store_noff (noff (cpus m c) - 1), Intr_on]
           else [Store_noff (noff (cpus m c) - 1)])"
  using assms by (cases "noff (cpus m c) = 1") (auto simp add: pop_off_def Let_def prim_defs)

lemma pop_off_locks: "locks (state_of (pop_off c m)) = locks m"
  by (simp add: pop_off_def Let_def prim_defs)

lemma tas_fields:
  "locks (snd (sync_lock_test_and_set c lk v m)) = (locks m)(lk := (locks m lk)\<lparr>locked := v\<rparr>)"
  "cpus (snd (sync_lock_test_and_set c lk v m)) = cpus m"
  "sie (snd (sync_lock_test_and_set c lk v m)) = sie m"
  "trace (snd (sync_lock_test_and_set c lk v m)) = trace m @ [(c, Test_and_set lk v (locked (locks m lk)))]"
  by (simp_all add: sync_lock_test_and_set_def emit_def)

lemma interfere_simps:
  "interfere lk [] m = m"
  "interfere lk (e # es) m = m\<lparr>locks := (locks m)(lk := e (locks m lk))\<rparr>"
  by (simp_all add: interfere_def)

subsection \<open>The spin loop\<close>

text \<open>One turn of the loop, with the exchange read off the lock word.\<close>

lemma spin_step:
  "spin c lk es m =
     (if locked (locks (interfere lk es m) lk) \<noteq> 0
      then spin c lk (tl es) (snd (sync_lock_test_and_set c lk 1 (interfere lk es m)))
      else Some (snd (sync_lock_test_and_set c lk 1 (interfere lk es m))))"
  by (subst spin.simps) (simp add: sync_lock_test_and_set_def)

lemma spin_free:
  "locked (locks (interfere lk es m) lk) = 0 \<Longrightarrow>
   spin c lk es m = Some (snd (sync_lock_test_and_set c lk 1 (interfere lk es m)))"
  by (subst spin.simps) (simp add: sync_lock_test_and_set_def)

text \<open>
  When the loop exits, every exchange but the last read a non-zero lock word and the last
  read 0; the loop changed nothing but the lock word it spun on, which it leaves set.
\<close>

lemma spin_shape:
  assumes "spin c lk es m = Some m'"
  shows "\<exists>olds. (\<forall>v\<in>set olds. v \<noteq> 0)
       \<and> trace m' = trace m @ map (\<lambda>v. (c, Test_and_set lk 1 v)) (olds @ [0])
       \<and> cpus m' = cpus m \<and> sie m' = sie m \<and> locked (locks m' lk) = 1
       \<and> (\<forall>l. l \<noteq> lk \<longrightarrow> locks m' l = locks m l)"
proof (rule spin.raw_induct[where P = "\<lambda>c lk es m m'. \<exists>olds. (\<forall>v\<in>set olds. v \<noteq> 0)
       \<and> trace m' = trace m @ map (\<lambda>v. (c, Test_and_set lk 1 v)) (olds @ [0])
       \<and> cpus m' = cpus m \<and> sie m' = sie m \<and> locked (locks m' lk) = 1
       \<and> (\<forall>l. l \<noteq> lk \<longrightarrow> locks m' l = locks m l)", OF _ assms])
  fix spin' c lk es m m'
  assume IH: "\<And>c lk es m y. spin' c lk es m = Some y \<Longrightarrow>
      \<exists>olds. (\<forall>v\<in>set olds. v \<noteq> 0)
       \<and> trace y = trace m @ map (\<lambda>v. (c, Test_and_set lk 1 v)) (olds @ [0])
       \<and> cpus y = cpus m \<and> sie y = sie m \<and> locked (locks y lk) = 1
       \<and> (\<forall>l. l \<noteq> lk \<longrightarrow> locks y l = locks m l)"
    and body: "(case sync_lock_test_and_set c lk 1 (interfere lk es m) of
                 (old, m1) \<Rightarrow> if old \<noteq> 0 then spin' c lk (tl es) m1 else Some m1) = Some m'"
  obtain old m1 where tas: "sync_lock_test_and_set c lk 1 (interfere lk es m) = (old, m1)"
    by (cases "sync_lock_test_and_set c lk 1 (interfere lk es m)")
  have m1: "trace m1 = trace m @ [(c, Test_and_set lk 1 old)]" "cpus m1 = cpus m" "sie m1 = sie m"
    "locked (locks m1 lk) = 1" "\<forall>l. l \<noteq> lk \<longrightarrow> locks m1 l = locks m l"
    using tas by (auto simp: sync_lock_test_and_set_def emit_def interfere_def split: list.splits)
  show "\<exists>olds. (\<forall>v\<in>set olds. v \<noteq> 0)
       \<and> trace m' = trace m @ map (\<lambda>v. (c, Test_and_set lk 1 v)) (olds @ [0])
       \<and> cpus m' = cpus m \<and> sie m' = sie m \<and> locked (locks m' lk) = 1
       \<and> (\<forall>l. l \<noteq> lk \<longrightarrow> locks m' l = locks m l)"
  proof (cases "old = 0")
    case True
    with body tas have "m' = m1" by simp
    with m1 True show ?thesis by (intro exI[of _ "[]"]) simp
  next
    case False
    with body tas have "spin' c lk (tl es) m1 = Some m'" by simp
    from IH[OF this] obtain olds where o: "\<forall>v\<in>set olds. v \<noteq> 0"
      "trace m' = trace m1 @ map (\<lambda>v. (c, Test_and_set lk 1 v)) (olds @ [0])"
      "cpus m' = cpus m1" "sie m' = sie m1" "locked (locks m' lk) = 1"
      "\<forall>l. l \<noteq> lk \<longrightarrow> locks m' l = locks m1 l" by blast
    with m1 False show ?thesis by (intro exI[of _ "old # olds"]) simp
  qed
qed

text \<open>
  With no other core writing the lock, every exchange after the first reads back the 1
  this core stored: on a lock that is taken the loop never exits.
\<close>

lemma spin_alone_diverges:
  assumes "spin c lk es m = Some m'"
  shows "es = [] \<longrightarrow> locked (locks m lk) = 0"
proof (rule spin.raw_induct[where P = "\<lambda>c lk es m m'. es = [] \<longrightarrow> locked (locks m lk) = 0", OF _ assms])
  fix spin' c lk es m m'
  assume IH: "\<And>c lk es m y. spin' c lk es m = Some y \<Longrightarrow> es = [] \<longrightarrow> locked (locks m lk) = 0"
    and body: "(case sync_lock_test_and_set c lk 1 (interfere lk es m) of
                 (old, m1) \<Rightarrow> if old \<noteq> 0 then spin' c lk (tl es) m1 else Some m1) = Some m'"
  show "es = [] \<longrightarrow> locked (locks m lk) = 0"
  proof (intro impI, rule ccontr)
    assume e: "es = []" and nz: "locked (locks m lk) \<noteq> 0"
    let ?m1 = "snd (sync_lock_test_and_set c lk 1 (interfere lk es m))"
    from body e nz have "spin' c lk [] ?m1 = Some m'"
      by (simp add: sync_lock_test_and_set_def interfere_def)
    from IH[OF this] have "locked (locks ?m1 lk) = 0" by simp
    then show False by (simp add: sync_lock_test_and_set_def emit_def)
  qed
qed

lemma spin_alone_held: "locked (locks m lk) \<noteq> 0 \<Longrightarrow> spin c lk [] m = None"
  using spin_alone_diverges[of c lk "[]" m] by (cases "spin c lk [] m") auto

text \<open>
  The loop exits at the first exchange that reads 0, and only there: it returns after
  exchange \<open>n\<close> when that is the first to read 0, and it never returns when no exchange
  reads 0.
\<close>

lemma interfere_lock:
  "locks (interfere lk es m) lk = (case es of [] \<Rightarrow> locks m lk | e # _ \<Rightarrow> e (locks m lk))"
  by (simp add: interfere_def split: list.splits)

lemma interfere_fields:
  "cpus (interfere lk es m) = cpus m" "sie (interfere lk es m) = sie m"
  "trace (interfere lk es m) = trace m"
  "l \<noteq> lk \<Longrightarrow> locks (interfere lk es m) l = locks m l"
  by (simp_all add: interfere_def split: list.splits)

lemma spin_wins:
  "observed es (locks m lk) n = 0 \<Longrightarrow> (\<forall>k<n. observed es (locks m lk) k \<noteq> 0) \<Longrightarrow>
   \<exists>m'. spin c lk es m = Some m'
     \<and> trace m' = trace m @ map (\<lambda>k. (c, Test_and_set lk 1 (observed es (locks m lk) k))) [0..<Suc n]
     \<and> cpus m' = cpus m \<and> sie m' = sie m \<and> locked (locks m' lk) = 1
     \<and> (\<forall>l. l \<noteq> lk \<longrightarrow> locks m' l = locks m l)"
proof (induction n arbitrary: es m)
  case 0
  then have z: "locked (locks (interfere lk es m) lk) = 0" by (simp add: interfere_lock)
  from spin_free[OF z] z show ?case
    by (simp add: tas_fields interfere_fields interfere_lock)
next
  case (Suc n)
  let ?m1 = "snd (sync_lock_test_and_set c lk 1 (interfere lk es m))"
  from Suc.prems(2) have nz: "observed es (locks m lk) 0 \<noteq> 0" by blast
  then have nz': "locked (locks (interfere lk es m) lk) \<noteq> 0" by (simp add: interfere_lock)
  have st: "spin c lk es m = spin c lk (tl es) ?m1" using nz' by (subst spin_step) simp
  have l1: "locks ?m1 lk = (case es of [] \<Rightarrow> locks m lk | e # _ \<Rightarrow> e (locks m lk))\<lparr>locked := 1\<rparr>"
    by (simp add: tas_fields interfere_lock)
  have sh: "\<And>k. observed (tl es) (locks ?m1 lk) k = observed es (locks m lk) (Suc k)"
    by (simp add: l1)
  have a: "observed (tl es) (locks ?m1 lk) n = 0" using Suc.prems(1) by (simp add: sh)
  have b: "\<forall>k<n. observed (tl es) (locks ?m1 lk) k \<noteq> 0"
  proof (intro allI impI)
    fix k assume "k < n"
    then have "Suc k < Suc n" by simp
    with Suc.prems(2) have "observed es (locks m lk) (Suc k) \<noteq> 0" by blast
    then show "observed (tl es) (locks ?m1 lk) k \<noteq> 0" unfolding sh .
  qed
  from Suc.IH[OF a b] obtain m' where m': "spin c lk (tl es) ?m1 = Some m'"
    "trace m' = trace ?m1 @ map (\<lambda>k. (c, Test_and_set lk 1 (observed (tl es) (locks ?m1 lk) k))) [0..<Suc n]"
    "cpus m' = cpus ?m1" "sie m' = sie ?m1" "locked (locks m' lk) = 1"
    "\<forall>l. l \<noteq> lk \<longrightarrow> locks m' l = locks ?m1 l" by blast
  have t1: "trace ?m1 = trace m @ [(c, Test_and_set lk 1 (observed es (locks m lk) 0))]"
    by (simp add: tas_fields interfere_fields interfere_lock)
  have u: "[0..<Suc (Suc n)] = 0 # map Suc [0..<Suc n]"
    by (simp only: map_Suc_upt upt_conv_Cons[of 0 "Suc (Suc n)"] zero_less_Suc)
  have "trace m' = trace m @ map (\<lambda>k. (c, Test_and_set lk 1 (observed es (locks m lk) k))) [0..<Suc (Suc n)]"
    unfolding u m'(2) t1 sh by (simp add: comp_def)
  with m' st show ?case
    by (simp add: tas_fields interfere_fields)
qed

lemma spin_returns_observed:
  assumes "spin c lk es m = Some m'"
  shows "\<exists>k. observed es (locks m lk) k = 0"
proof (rule spin.raw_induct[where P = "\<lambda>c lk es m m'. \<exists>k. observed es (locks m lk) k = 0", OF _ assms])
  fix spin' c lk es m m'
  assume IH: "\<And>c lk es m y. spin' c lk es m = Some y \<Longrightarrow> \<exists>k. observed es (locks m lk) k = 0"
    and body: "(case sync_lock_test_and_set c lk 1 (interfere lk es m) of
                 (old, m1) \<Rightarrow> if old \<noteq> 0 then spin' c lk (tl es) m1 else Some m1) = Some m'"
  let ?m1 = "snd (sync_lock_test_and_set c lk 1 (interfere lk es m))"
  show "\<exists>k. observed es (locks m lk) k = 0"
  proof (cases "observed es (locks m lk) 0 = 0")
    case True
    then show ?thesis by blast
  next
    case False
    then have "locked (locks (interfere lk es m) lk) \<noteq> 0" by (simp add: interfere_lock)
    with body have "spin' c lk (tl es) ?m1 = Some m'"
      by (simp add: sync_lock_test_and_set_def)
    from IH[OF this] obtain k where "observed (tl es) (locks ?m1 lk) k = 0" by blast
    then have "observed es (locks m lk) (Suc k) = 0"
      by (simp add: tas_fields interfere_lock)
    then show ?thesis by blast
  qed
qed

lemma spin_never: "\<forall>k. observed es (locks m lk) k \<noteq> 0 \<Longrightarrow> spin c lk es m = None"
  using spin_returns_observed[of c lk es m] by (cases "spin c lk es m") auto

lemma observed_alone: "locked l \<noteq> 0 \<Longrightarrow> observed [] l k \<noteq> 0"
  by (induction k arbitrary: l) simp_all

subsection \<open>acquire and release\<close>

lemma acquire_alt:
  "acquire c lk es m =
     (if fst (holding c lk m) then Some (Panicked ''acquire'' (snd (holding c lk (push_off c m))))
      else map_option (\<lambda>m3. Returned (store_cpu c lk (Some c) (sync_synchronize c m3)))
             (spin c lk es (snd (holding c lk (push_off c m)))))"
proof -
  obtain h m2 where hm: "holding c lk (push_off c m) = (h, m2)"
    by (cases "holding c lk (push_off c m)")
  then have "h = fst (holding c lk m)"
    using holding_push_off[of c lk m] by simp
  with hm show ?thesis
    by (simp add: acquire_def Let_def split: option.splits)
qed

lemma release_alt:
  "release c lk m =
     (if fst (holding c lk m)
      then pop_off c (sync_lock_release c lk (sync_synchronize c (store_cpu c lk None (snd (holding c lk m)))))
      else Panicked ''release'' (snd (holding c lk m)))"
  unfolding release_def by (cases "holding c lk m") simp

lemma acquire_returned:
  assumes "acquire c lk es m = Some (Returned m')"
  shows "\<not> fst (holding c lk m)"
    and "\<exists>m3. spin c lk es (snd (holding c lk (push_off c m))) = Some m3
           \<and> m' = store_cpu c lk (Some c) (sync_synchronize c m3)"
  using assms by (auto simp add: acquire_alt split: if_splits)

lemma acquire_shape:
  assumes "acquire c lk es m = Some (Returned m')"
  shows "\<exists>olds. (\<forall>v\<in>set olds. v \<noteq> 0)
     \<and> trace m' = trace m @ map (Pair c)
         (push_off_events c m @ holding_events lk m @ map (Test_and_set lk 1) (olds @ [0])
          @ [Synchronize, Store_cpu lk (Some c)])"
    and "noff (cpus m' c) = noff (cpus m c) + 1"
    and "intena (cpus m' c) = (if noff (cpus m c) = 0 then sie m c else intena (cpus m c))"
    and "\<not> sie m' c"
    and "\<forall>d. d \<noteq> c \<longrightarrow> cpus m' d = cpus m d \<and> sie m' d = sie m d"
    and "locked (locks m' lk) = 1" and "cpu (locks m' lk) = Some c"
    and "\<forall>l. l \<noteq> lk \<longrightarrow> locks m' l = locks m l"
proof -
  let ?m2 = "snd (holding c lk (push_off c m))"
  from acquire_returned(2)[OF assms] obtain m3 where
    sp: "spin c lk es ?m2 = Some m3" and m': "m' = store_cpu c lk (Some c) (sync_synchronize c m3)"
    by blast
  from spin_shape[OF sp] obtain olds where o: "\<forall>v\<in>set olds. v \<noteq> 0"
    "trace m3 = trace ?m2 @ map (\<lambda>v. (c, Test_and_set lk 1 v)) (olds @ [0])"
    "cpus m3 = cpus ?m2" "sie m3 = sie ?m2" "locked (locks m3 lk) = 1"
    "\<forall>l. l \<noteq> lk \<longrightarrow> locks m3 l = locks ?m2 l" by blast
  have t2: "trace ?m2 = trace m @ map (Pair c) (push_off_events c m @ holding_events lk m)"
    by (simp add: holding_snd push_off_fields holding_events_def)
  have "trace m' = trace m @ map (Pair c)
         (push_off_events c m @ holding_events lk m @ map (Test_and_set lk 1) (olds @ [0])
          @ [Synchronize, Store_cpu lk (Some c)])"
    using o(2) t2 by (simp add: m' store_cpu_def sync_synchronize_def emit_def comp_def)
  with o(1) show "\<exists>olds. (\<forall>v\<in>set olds. v \<noteq> 0)
     \<and> trace m' = trace m @ map (Pair c)
         (push_off_events c m @ holding_events lk m @ map (Test_and_set lk 1) (olds @ [0])
          @ [Synchronize, Store_cpu lk (Some c)])" by blast
  show "noff (cpus m' c) = noff (cpus m c) + 1"
    using o(3) by (simp add: m' store_cpu_def sync_synchronize_def emit_def holding_snd push_off_fields)
  show "intena (cpus m' c) = (if noff (cpus m c) = 0 then sie m c else intena (cpus m c))"
    using o(3) by (simp add: m' store_cpu_def sync_synchronize_def emit_def holding_snd push_off_fields)
  show "\<not> sie m' c"
    using o(4) by (simp add: m' store_cpu_def sync_synchronize_def emit_def holding_snd push_off_fields)
  show "\<forall>d. d \<noteq> c \<longrightarrow> cpus m' d = cpus m d \<and> sie m' d = sie m d"
    using o(3,4) by (simp add: m' store_cpu_def sync_synchronize_def emit_def holding_snd push_off_fields)
  show "locked (locks m' lk) = 1"
    using o(5) by (simp add: m' store_cpu_def sync_synchronize_def emit_def)
  show "cpu (locks m' lk) = Some c"
    by (simp add: m' store_cpu_def sync_synchronize_def emit_def)
  show "\<forall>l. l \<noteq> lk \<longrightarrow> locks m' l = locks m l"
    using o(6) by (simp add: m' store_cpu_def sync_synchronize_def emit_def holding_snd push_off_fields)
qed

lemma acquire_free_returns:
  assumes "\<not> fst (holding c lk m)" "locked (locks (interfere lk es m) lk) = 0"
  shows "\<exists>m'. acquire c lk es m = Some (Returned m')"
proof -
  let ?m2 = "snd (holding c lk (push_off c m))"
  have "locked (locks (interfere lk es ?m2) lk) = 0"
    using assms(2) by (simp add: interfere_def holding_snd push_off_fields split: list.splits)
  from spin_free[OF this] show ?thesis using assms(1)
    by (simp add: acquire_alt)
qed

lemma acquire_machine0: "\<exists>m1. acquire 0 1 [] machine0 = Some (Returned m1)"
  by (rule acquire_free_returns) (simp_all add: holding_fst interfere_simps machine0_fields)

lemma acquire_held_alone_never_returns:
  assumes "\<not> fst (holding c lk m)" "locked (locks m lk) \<noteq> 0"
  shows "acquire c lk [] m = None"
proof -
  have "locked (locks (snd (holding c lk (push_off c m))) lk) \<noteq> 0"
    using assms(2) by (simp add: holding_snd push_off_fields)
  from spin_alone_held[OF this] assms(1) show ?thesis by (simp add: acquire_alt)
qed

lemma release_mid:
  "locks (sync_lock_release c lk (sync_synchronize c (store_cpu c lk None (snd (holding c lk m)))))
     = (locks m)(lk := (locks m lk)\<lparr>cpu := None, locked := 0\<rparr>)"
  "cpus (sync_lock_release c lk (sync_synchronize c (store_cpu c lk None (snd (holding c lk m))))) = cpus m"
  "sie (sync_lock_release c lk (sync_synchronize c (store_cpu c lk None (snd (holding c lk m))))) = sie m"
  "trace (sync_lock_release c lk (sync_synchronize c (store_cpu c lk None (snd (holding c lk m)))))
     = trace m @ map (Pair c) (holding_events lk m @ [Store_cpu lk None, Synchronize, Lock_release lk])"
  by (simp_all add: sync_lock_release_def sync_synchronize_def store_cpu_def emit_def holding_snd)

lemma release_returns:
  assumes "fst (holding c lk m)" "\<not> sie m c" "0 < noff (cpus m c)"
  shows "\<exists>m'. release c lk m = Returned m'
     \<and> noff (cpus m' c) = noff (cpus m c) - 1
     \<and> sie m' c = (noff (cpus m c) = 1 \<and> intena (cpus m c))
     \<and> locks m' = (locks m)(lk := (locks m lk)\<lparr>cpu := None, locked := 0\<rparr>)"
proof -
  let ?m1 = "sync_lock_release c lk (sync_synchronize c (store_cpu c lk None (snd (holding c lk m))))"
  have r: "release c lk m = pop_off c ?m1" using assms(1) by (simp add: release_alt)
  have "\<not> sie ?m1 c" "0 < noff (cpus ?m1 c)" using assms(2,3) by (simp_all add: release_mid)
  from pop_off_fields[OF this] show ?thesis unfolding r release_mid by blast
qed

lemma release_locks_other:
  "l \<noteq> lk \<Longrightarrow> locks (state_of (release c l m)) lk = locks m lk"
  by (simp add: release_alt pop_off_locks release_mid holding_snd)

lemma release_clears: "\<not> fst (holding c lk (state_of (release c lk m)))"
  by (simp add: release_alt holding_fst pop_off_locks release_mid holding_snd)

lemma initlock_locks_other:
  "l \<noteq> lk \<Longrightarrow> locks (initlock c l nm m) lk = locks m lk"
  by (simp add: initlock_def prim_defs)

subsection \<open>Sequences of calls\<close>

lemma do_call_leaves:
  assumes "do_call c x m = Some (Returned m')" "leaves lk x"
  shows "locks m' lk = locks m lk"
proof (cases x)
  case (Initlock l nm)
  with assms show ?thesis using initlock_locks_other[of l lk c nm m] by auto
next
  case (Acquire l es)
  with assms show ?thesis using acquire_shape(8)[of c l es m m'] by auto
next
  case (Release l)
  with assms show ?thesis using release_locks_other[of l lk c m] by auto
next
  case (Holding l)
  with assms show ?thesis by (auto simp: holding_snd)
next
  case Push_off
  with assms show ?thesis by (auto simp: push_off_fields)
next
  case Pop_off
  with assms show ?thesis using pop_off_locks[of c m] by auto
qed

lemma run_leaves:
  "run c xs m = Some (Returned m') \<Longrightarrow> \<forall>x\<in>set xs. leaves lk x \<Longrightarrow> locks m' lk = locks m lk"
proof (induction xs arbitrary: m)
  case Nil
  then show ?case by simp
next
  case (Cons x xs)
  from Cons.prems(1) obtain m1 where s: "do_call c x m = Some (Returned m1)"
    and r: "run c xs m1 = Some (Returned m')"
    by (auto split: option.splits outcome.splits)
  from Cons.IH[OF r] Cons.prems(2) do_call_leaves[OF s] show ?case by simp
qed

lemma nested_run:
  "nested k xs \<Longrightarrow> noff (cpus m c) = n + k \<Longrightarrow>
   (if n + k = 0 then sie m c = b
    else \<not> sie m c \<and> (if n = 0 then intena (cpus m c) = b else \<not> b)) \<Longrightarrow>
   \<exists>m'. run c xs m = Some (Returned m') \<and> noff (cpus m' c) = n \<and> sie m' c = b"
proof (induction k xs arbitrary: m rule: nested.induct)
  case (1 d)
  then show ?case by (auto split: if_splits)
next
  case (2 d xs)
  let ?m1 = "push_off c m"
  have a: "noff (cpus ?m1 c) = n + Suc d" using 2(3) by (simp add: push_off_fields)
  have b: "if n + Suc d = 0 then sie ?m1 c = b
    else \<not> sie ?m1 c \<and> (if n = 0 then intena (cpus ?m1 c) = b else \<not> b)"
    using 2(3,4) by (auto simp add: push_off_fields split: if_splits)
  have "nested (Suc d) xs" using 2(2) by simp
  from 2(1)[OF this a b] show ?case by simp
next
  case (3 d xs)
  from 3(2) obtain k where d: "d = Suc k" and n: "nested k xs" by (cases d) simp_all
  from 3(3,4) d have pre: "\<not> sie m c" "0 < noff (cpus m c)" by simp_all
  from pop_off_fields[OF pre] obtain m1 where m1: "pop_off c m = Returned m1"
    "noff (cpus m1 c) = noff (cpus m c) - 1" "intena (cpus m1 c) = intena (cpus m c)"
    "sie m1 c = (noff (cpus m c) = 1 \<and> intena (cpus m c))" by blast
  have a: "noff (cpus m1 c) = n + k" using 3(3) d m1 by simp
  have b: "if n + k = 0 then sie m1 c = b
    else \<not> sie m1 c \<and> (if n = 0 then intena (cpus m1 c) = b else \<not> b)"
    using 3(3,4) d m1 by (auto split: if_splits)
  from 3(1)[OF d n a b] m1 show ?case by simp
qed simp_all

text \<open>Balanced sequences exist at every nesting depth.\<close>

lemma nested_replicate: "nested d (replicate n Push_off @ replicate (d + n) Pop_off)"
proof (induction n arbitrary: d)
  case 0
  show ?case by (induction d) simp_all
next
  case (Suc n)
  from Suc[of "Suc d"] show ?case by simp
qed

lemma balanced_any_depth: "balanced (replicate n Push_off @ replicate n Pop_off)"
  using nested_replicate[of 0 n] by (simp add: balanced_def)

subsection \<open>Timer setup\<close>

lemma scast_interval: "(scast interval :: 64 word) = 1000000"
  by (simp add: interval_def)

section \<open>The claims\<close>

text \<open>
  C1. A call of \<^verbatim>\<open>acquire\<close> by a core that does not hold the lock (C4 is the other
  case) spins until an exchange observes a free lock word, and no longer. If exchange
  \<open>n\<close> is the first to read 0, the call returns, having done in this order and nothing
  else: the steps of \<^verbatim>\<open>push_off\<close>, ending with the store that increments the nesting
  counter; the loads of the \<^verbatim>\<open>holding\<close> check; the exchanges \<open>0\<close> to \<open>n\<close>, each writing 1 to
  the lock word, the last one reading 0 and the earlier ones not; the full fence; and last
  the store that records the calling core as owner. The counter is then one higher, the
  lock word is set and the owner is the caller. If no exchange ever reads 0, the call
  never returns.
\<close>

theorem acquire_order:
  assumes "\<not> fst (holding c lk m)"
  shows "(\<forall>n. observed es (locks m lk) n = 0 \<and> (\<forall>k<n. observed es (locks m lk) k \<noteq> 0) \<longrightarrow>
            (\<exists>m'. acquire c lk es m = Some (Returned m')
               \<and> trace m' = trace m @ map (Pair c)
                    (push_off_events c m @ holding_events lk m
                     @ map (\<lambda>k. Test_and_set lk 1 (observed es (locks m lk) k)) [0..<Suc n]
                     @ [Synchronize, Store_cpu lk (Some c)])
               \<and> noff (cpus m' c) = noff (cpus m c) + 1
               \<and> locked (locks m' lk) = 1 \<and> cpu (locks m' lk) = Some c))
       \<and> ((\<forall>k. observed es (locks m lk) k \<noteq> 0) \<longrightarrow> acquire c lk es m = None)"
proof (intro conjI allI impI)
  let ?m2 = "snd (holding c lk (push_off c m))"
  have l2: "locks ?m2 = locks m" by (simp add: holding_snd push_off_fields)
  {
    assume "\<forall>k. observed es (locks m lk) k \<noteq> 0"
    then have "spin c lk es ?m2 = None" using spin_never[of es ?m2 lk c] by (simp add: l2)
    then show "acquire c lk es m = None" using assms by (simp add: acquire_alt)
  }
  fix n
  assume a: "observed es (locks m lk) n = 0 \<and> (\<forall>k<n. observed es (locks m lk) k \<noteq> 0)"
  from spin_wins[of es ?m2 lk n c] a obtain m3 where m3: "spin c lk es ?m2 = Some m3"
    "trace m3 = trace ?m2 @ map (\<lambda>k. (c, Test_and_set lk 1 (observed es (locks m lk) k))) [0..<Suc n]"
    "cpus m3 = cpus ?m2" "locked (locks m3 lk) = 1"
    unfolding l2 by blast
  let ?m' = "store_cpu c lk (Some c) (sync_synchronize c m3)"
  have r: "acquire c lk es m = Some (Returned ?m')" using assms m3(1) by (simp add: acquire_alt)
  have t2: "trace ?m2 = trace m @ map (Pair c) (push_off_events c m @ holding_events lk m)"
    by (simp add: holding_snd push_off_fields holding_events_def)
  have t: "trace ?m' = trace m @ map (Pair c)
                    (push_off_events c m @ holding_events lk m
                     @ map (\<lambda>k. Test_and_set lk 1 (observed es (locks m lk) k)) [0..<Suc n]
                     @ [Synchronize, Store_cpu lk (Some c)])"
    unfolding store_cpu_def sync_synchronize_def emit_def using m3(2) t2 by (simp add: comp_def)
  have s: "noff (cpus ?m' c) = noff (cpus m c) + 1" "locked (locks ?m' lk) = 1"
    "cpu (locks ?m' lk) = Some c"
    using m3(3,4) by (simp_all add: store_cpu_def sync_synchronize_def emit_def holding_snd push_off_fields)
  from r t s show "\<exists>m'. acquire c lk es m = Some (Returned m')
               \<and> trace m' = trace m @ map (Pair c)
                    (push_off_events c m @ holding_events lk m
                     @ map (\<lambda>k. Test_and_set lk 1 (observed es (locks m lk) k)) [0..<Suc n]
                     @ [Synchronize, Store_cpu lk (Some c)])
               \<and> noff (cpus m' c) = noff (cpus m c) + 1
               \<and> locked (locks m' lk) = 1 \<and> cpu (locks m' lk) = Some c" by blast
qed

theorem acquire_order_witness:
  "(\<exists>m'. acquire 0 7 [\<lambda>l. l\<lparr>locked := 1, cpu := Some 1\<rparr>, \<lambda>l. l, \<lambda>l. l\<lparr>cpu := None, locked := 0\<rparr>]
           machine0 = Some (Returned m')
      \<and> trace m' = map (Pair 0)
           [Intr_off, Store_intena False, Store_noff 1, Load_locked 7 0,
            Test_and_set 7 1 1, Test_and_set 7 1 1, Test_and_set 7 1 0,
            Synchronize, Store_cpu 7 (Some 0)]
      \<and> noff (cpus m' 0) = 1 \<and> locked (locks m' 7) = 1 \<and> cpu (locks m' 7) = Some 0)
   \<and> acquire 0 7 [] (machine_held 1 7) = None"
proof -
  let ?es = "[\<lambda>l. l\<lparr>locked := 1, cpu := Some 1\<rparr>, \<lambda>l. l, \<lambda>l. l\<lparr>cpu := None, locked := 0\<rparr>]
               :: interference"
  have h: "\<not> fst (holding 0 7 machine0)"
    by (simp add: holding_fst machine0_fields)
  have o: "observed ?es (locks machine0 7) (Suc (Suc 0)) = 0
      \<and> (\<forall>k<Suc (Suc 0). observed ?es (locks machine0 7) k \<noteq> 0)"
    by (simp add: machine0_fields All_less_Suc)
  have v: "map (\<lambda>k. Test_and_set 7 1 (observed ?es (locks machine0 7) k)) [0..<Suc (Suc (Suc 0))]
      = [Test_and_set 7 1 1, Test_and_set 7 1 1, Test_and_set 7 1 0]"
    by (simp add: machine0_fields)
  from acquire_order[OF h, of ?es] o obtain m' where
    "acquire 0 7 ?es machine0 = Some (Returned m')"
    "trace m' = trace machine0 @ map (Pair 0)
        (push_off_events 0 machine0 @ holding_events 7 machine0
         @ map (\<lambda>k. Test_and_set 7 1 (observed ?es (locks machine0 7) k)) [0..<Suc (Suc (Suc 0))]
         @ [Synchronize, Store_cpu 7 (Some 0)])"
    "noff (cpus m' 0) = noff (cpus machine0 0) + 1"
    "locked (locks m' 7) = 1" "cpu (locks m' 7) = Some 0"
    by blast
  then have a: "\<exists>m'. acquire 0 7 ?es machine0 = Some (Returned m')
      \<and> trace m' = map (Pair 0)
           [Intr_off, Store_intena False, Store_noff 1, Load_locked 7 0,
            Test_and_set 7 1 1, Test_and_set 7 1 1, Test_and_set 7 1 0,
            Synchronize, Store_cpu 7 (Some 0)]
      \<and> noff (cpus m' 0) = 1 \<and> locked (locks m' 7) = 1 \<and> cpu (locks m' 7) = Some 0"
    unfolding v by (simp add: machine0_fields push_off_events_def holding_events_def)
  have h2: "\<not> fst (holding 0 7 (machine_held 1 7))"
    by (simp add: holding_fst machine_held_fields)
  have "\<forall>k. observed [] (locks (machine_held 1 7) 7) k \<noteq> 0"
    by (simp add: observed_alone machine_held_fields)
  with acquire_order[OF h2, of "[]"] have b: "acquire 0 7 [] (machine_held 1 7) = None"
    by blast
  from a b show ?thesis by blast
qed

text \<open>
  C2. A call of \<^verbatim>\<open>release\<close> by the core that holds the lock does, after the loads of the
  \<^verbatim>\<open>holding\<close> check, exactly this: it clears the owner, issues the full fence, clears
  the lock word with the atomic write, and then runs \<^verbatim>\<open>pop_off\<close> as its last step.
  With interrupts disabled and a positive nesting counter, as \<^verbatim>\<open>acquire\<close> leaves them,
  \<^verbatim>\<open>pop_off\<close> returns and the counter is one lower.
\<close>

theorem release_order:
  assumes "fst (holding c lk m)"
  shows "\<exists>m1. release c lk m = pop_off c m1
     \<and> trace m1 = trace m @ map (Pair c)
          [Load_locked lk (locked (locks m lk)), Load_cpu lk (Some c),
           Store_cpu lk None, Synchronize, Lock_release lk]
     \<and> locks m1 = (locks m)(lk := (locks m lk)\<lparr>cpu := None, locked := 0\<rparr>)
     \<and> cpus m1 = cpus m \<and> sie m1 = sie m
     \<and> (\<not> sie m c \<and> 0 < noff (cpus m c) \<longrightarrow>
          (\<exists>m'. release c lk m = Returned m'
             \<and> noff (cpus m' c) = noff (cpus m c) - 1
             \<and> trace m' = trace m1 @ map (Pair c)
                  (if noff (cpus m c) = 1 \<and> intena (cpus m c)
                   then [Store_noff (noff (cpus m c) - 1), Intr_on]
                   else [Store_noff (noff (cpus m c) - 1)])))"
proof -
  let ?m1 = "sync_lock_release c lk (sync_synchronize c (store_cpu c lk None (snd (holding c lk m))))"
  have r: "release c lk m = pop_off c ?m1" using assms by (simp add: release_alt)
  have t: "trace ?m1 = trace m @ map (Pair c)
          [Load_locked lk (locked (locks m lk)), Load_cpu lk (Some c),
           Store_cpu lk None, Synchronize, Lock_release lk]"
    using assms by (simp add: release_mid holding_events_def holding_fst)
  have p: "\<not> sie m c \<and> 0 < noff (cpus m c) \<longrightarrow>
          (\<exists>m'. release c lk m = Returned m'
             \<and> noff (cpus m' c) = noff (cpus m c) - 1
             \<and> trace m' = trace ?m1 @ map (Pair c)
                  (if noff (cpus m c) = 1 \<and> intena (cpus m c)
                   then [Store_noff (noff (cpus m c) - 1), Intr_on]
                   else [Store_noff (noff (cpus m c) - 1)]))"
  proof
    assume "\<not> sie m c \<and> 0 < noff (cpus m c)"
    then have "\<not> sie ?m1 c" "0 < noff (cpus ?m1 c)" by (simp_all add: release_mid)
    from pop_off_fields[OF this] show "\<exists>m'. release c lk m = Returned m'
             \<and> noff (cpus m' c) = noff (cpus m c) - 1
             \<and> trace m' = trace ?m1 @ map (Pair c)
                  (if noff (cpus m c) = 1 \<and> intena (cpus m c)
                   then [Store_noff (noff (cpus m c) - 1), Intr_on]
                   else [Store_noff (noff (cpus m c) - 1)])"
      unfolding r release_mid(2) by blast
  qed
  from r t p release_mid(1-3)[of c lk m] show ?thesis by blast
qed

theorem release_order_witness:
  "fst (holding 0 7 (machine_held 0 7))
   \<and> (\<exists>m'. release 0 7 (machine_held 0 7) = Returned m'
         \<and> noff (cpus m' 0) = 0
         \<and> trace m' = map (Pair 0)
              [Load_locked 7 1, Load_cpu 7 (Some 0), Store_cpu 7 None, Synchronize,
               Lock_release 7, Store_noff 0, Intr_on])"
proof -
  have h: "fst (holding 0 7 (machine_held 0 7))"
    by (simp add: holding_fst machine_held_fields)
  from release_order[OF h] h show ?thesis
    by (auto simp add: machine_held_fields)
qed

text \<open>
  C3. \<^verbatim>\<open>holding\<close> returns true if and only if the lock word is set and the recorded
  owner is the calling core. So after an \<^verbatim>\<open>acquire\<close> that returned, \<^verbatim>\<open>holding\<close> is true
  for the same core, stays true across any calls of that core that are not an initlock,
  acquire or release of this lock, and is false after the release.
\<close>

theorem holding_iff_until_release:
  "(fst (holding c lk m) \<longleftrightarrow> locked (locks m lk) \<noteq> 0 \<and> cpu (locks m lk) = Some c)
   \<and> (\<forall>es m1 xs m2.
         acquire c lk es m = Some (Returned m1) \<and> (\<forall>x\<in>set xs. leaves lk x)
           \<and> run c xs m1 = Some (Returned m2)
         \<longrightarrow> fst (holding c lk m1) \<and> fst (holding c lk m2)
             \<and> \<not> fst (holding c lk (state_of (release c lk m2))))"
proof (intro conjI allI impI)
  show "fst (holding c lk m) \<longleftrightarrow> locked (locks m lk) \<noteq> 0 \<and> cpu (locks m lk) = Some c"
    by (rule holding_fst)
next
  fix es m1 xs m2
  assume a: "acquire c lk es m = Some (Returned m1) \<and> (\<forall>x\<in>set xs. leaves lk x)
           \<and> run c xs m1 = Some (Returned m2)"
  from a acquire_shape(6,7)[of c lk es m m1] show h1: "fst (holding c lk m1)"
    by (simp add: holding_fst)
  from a run_leaves[of c xs m1 m2 lk] have "locks m2 lk = locks m1 lk" by blast
  with h1 show "fst (holding c lk m2)" by (simp add: holding_fst)
  show "\<not> fst (holding c lk (state_of (release c lk m2)))" by (rule release_clears)
qed

theorem holding_iff_until_release_witness:
  "\<exists>m1 m2. acquire 0 1 [] machine0 = Some (Returned m1)
     \<and> run 0 [Push_off, Holding 1] m1 = Some (Returned m2)
     \<and> fst (holding 0 1 m1) \<and> fst (holding 0 1 m2)
     \<and> \<not> fst (holding 0 1 (state_of (release 0 1 m2)))"
proof -
  from acquire_machine0 obtain m1 where r: "acquire 0 1 [] machine0 = Some (Returned m1)" by blast
  have x: "run 0 [Push_off, Holding 1] m1 = Some (Returned (snd (holding 0 1 (push_off 0 m1))))"
    by simp
  have l: "\<forall>x\<in>set [Push_off, Holding 1]. leaves 1 x" by simp
  from holding_iff_until_release[of 0 1 machine0] r x l show ?thesis by blast
qed

text \<open>
  C4. \<^verbatim>\<open>acquire\<close> on a lock the calling core already holds ends in
  \<^verbatim>\<open>panic("acquire")\<close>, whatever the other cores do: it neither returns nor spins. Up to
  the panic it has run \<^verbatim>\<open>push_off\<close> and the loads of the \<^verbatim>\<open>holding\<close> check only: no
  exchange, and the lock is as it was.
\<close>

theorem acquire_reentrant_panics:
  assumes "fst (holding c lk m)"
  shows "\<exists>m'. acquire c lk es m = Some (Panicked ''acquire'' m')
     \<and> locks m' = locks m
     \<and> trace m' = trace m @ map (Pair c) (push_off_events c m @ holding_events lk m)
     \<and> (\<forall>l v w. (c, Test_and_set l v w) \<notin> set (map (Pair c) (push_off_events c m @ holding_events lk m)))"
  using assms
  by (auto simp add: acquire_alt holding_snd push_off_fields push_off_events_def holding_events_def)

theorem acquire_reentrant_panics_witness:
  "fst (holding 0 7 (machine_held 0 7))
   \<and> (\<exists>m'. acquire 0 7 [] (machine_held 0 7) = Some (Panicked ''acquire'' m')
         \<and> locks m' = locks (machine_held 0 7)
         \<and> trace m' = map (Pair 0) [Intr_off, Store_noff 2, Load_locked 7 1, Load_cpu 7 (Some 0)])"
proof -
  have h: "fst (holding 0 7 (machine_held 0 7))"
    by (simp add: holding_fst machine_held_fields)
  from acquire_reentrant_panics[OF h, of "[]"] h show ?thesis
    by (auto simp add: machine_held_fields push_off_events_def holding_events_def)
qed

text \<open>
  C5. \<^verbatim>\<open>release\<close> on a lock the calling core does not hold ends in
  \<^verbatim>\<open>panic("release")\<close> and leaves every lock word and owner, the per-core records and
  the interrupt-enable bits unchanged. A lock that was never acquired is such a lock.
\<close>

theorem release_not_holding_panics:
  assumes "\<not> fst (holding c lk m)"
  shows "\<exists>m'. release c lk m = Panicked ''release'' m'
     \<and> locks m' = locks m \<and> cpus m' = cpus m \<and> sie m' = sie m"
  using assms by (simp add: release_alt holding_snd)

theorem release_not_holding_panics_witness:
  "\<not> fst (holding 0 7 machine0)
   \<and> (\<exists>m'. release 0 7 machine0 = Panicked ''release'' m' \<and> locks m' = locks machine0)"
proof -
  have h: "\<not> fst (holding 0 7 machine0)"
    by (simp add: holding_fst machine0_fields)
  from release_not_holding_panics[OF h] h show ?thesis by blast
qed

text \<open>
  C6. \<^verbatim>\<open>pop_off\<close> panics when interrupts are enabled on the calling core; it panics
  when the nesting counter is zero; otherwise it decrements the counter, and the
  interrupt-enable bit afterwards is the saved value \<open>intena\<close> when the counter has reached
  zero and is unchanged (disabled) when it has not.
\<close>

theorem pop_off_cases:
  "(intr_get c m \<longrightarrow> pop_off c m = Panicked ''pop_off - interruptible'' m)
   \<and> (noff (mycpu c m) = 0 \<longrightarrow> panicked (pop_off c m) \<and> state_of (pop_off c m) = m)
   \<and> (\<not> intr_get c m \<and> noff (mycpu c m) = 0 \<longrightarrow> pop_off c m = Panicked ''pop_off'' m)
   \<and> (\<not> intr_get c m \<and> noff (mycpu c m) \<noteq> 0 \<longrightarrow>
        (\<exists>m'. pop_off c m = Returned m'
           \<and> noff (mycpu c m') = noff (mycpu c m) - 1
           \<and> intr_get c m' = (if noff (mycpu c m') = 0 then intena (mycpu c m) else intr_get c m)
           \<and> locks m' = locks m))"
proof (intro conjI impI)
  assume "intr_get c m"
  then show "pop_off c m = Panicked ''pop_off - interruptible'' m"
    by (simp add: pop_off_def)
next
  assume "noff (mycpu c m) = 0"
  then show "panicked (pop_off c m)" and "state_of (pop_off c m) = m"
    by (simp_all add: pop_off_def)
next
  assume "\<not> intr_get c m \<and> noff (mycpu c m) = 0"
  then show "pop_off c m = Panicked ''pop_off'' m"
    by (simp add: pop_off_def)
next
  assume a: "\<not> intr_get c m \<and> noff (mycpu c m) \<noteq> 0"
  then have "\<not> sie m c" "0 < noff (cpus m c)"
    by (simp_all add: intr_get_def mycpu_def)
  from pop_off_fields[OF this] obtain m' where m': "pop_off c m = Returned m'"
    "noff (cpus m' c) = noff (cpus m c) - 1"
    "sie m' c = (noff (cpus m c) = 1 \<and> intena (cpus m c))" "locks m' = locks m"
    by blast
  have "intr_get c m' = (if noff (mycpu c m') = 0 then intena (mycpu c m) else intr_get c m)"
    using a m'(2,3) by (auto simp add: intr_get_def mycpu_def)
  with m' show "\<exists>m'. pop_off c m = Returned m'
           \<and> noff (mycpu c m') = noff (mycpu c m) - 1
           \<and> intr_get c m' = (if noff (mycpu c m') = 0 then intena (mycpu c m) else intr_get c m)
           \<and> locks m' = locks m"
    by (simp add: mycpu_def)
qed

theorem pop_off_cases_witness:
  "pop_off 0 (machine0\<lparr>sie := (sie machine0)(0 := True)\<rparr>)
     = Panicked ''pop_off - interruptible'' (machine0\<lparr>sie := (sie machine0)(0 := True)\<rparr>)
   \<and> pop_off 0 machine0 = Panicked ''pop_off'' machine0
   \<and> (\<exists>m'. pop_off 0 (machine_held 0 7) = Returned m'
         \<and> noff (mycpu 0 m') = 0 \<and> intr_get 0 m')"
proof -
  have a: "intr_get 0 (machine0\<lparr>sie := (sie machine0)(0 := True)\<rparr>)"
    by (simp add: intr_get_def)
  have b: "\<not> intr_get 0 machine0 \<and> noff (mycpu 0 machine0) = 0"
    by (simp add: intr_get_def mycpu_def machine0_fields)
  have c: "\<not> intr_get 0 (machine_held 0 7) \<and> noff (mycpu 0 (machine_held 0 7)) \<noteq> 0"
    "noff (mycpu 0 (machine_held 0 7)) = 1" "intena (mycpu 0 (machine_held 0 7))"
    by (simp_all add: intr_get_def mycpu_def machine_held_fields)
  from pop_off_cases[of 0 "machine0\<lparr>sie := (sie machine0)(0 := True)\<rparr>"] a
  have 1: "pop_off 0 (machine0\<lparr>sie := (sie machine0)(0 := True)\<rparr>)
     = Panicked ''pop_off - interruptible'' (machine0\<lparr>sie := (sie machine0)(0 := True)\<rparr>)"
    by blast
  from pop_off_cases[of 0 machine0] b
  have 2: "pop_off 0 machine0 = Panicked ''pop_off'' machine0" by blast
  from pop_off_cases[of 0 "machine_held 0 7"] c(1)
  obtain m' where "pop_off 0 (machine_held 0 7) = Returned m'"
    "noff (mycpu 0 m') = noff (mycpu 0 (machine_held 0 7)) - 1"
    "intr_get 0 m' = (if noff (mycpu 0 m') = 0 then intena (mycpu 0 (machine_held 0 7))
                      else intr_get 0 (machine_held 0 7))" by blast
  with c(2,3) have 3: "\<exists>m'. pop_off 0 (machine_held 0 7) = Returned m'
         \<and> noff (mycpu 0 m') = 0 \<and> intr_get 0 m'" by simp
  from 1 2 3 show ?thesis by blast
qed

text \<open>
  C7. A balanced sequence of \<^verbatim>\<open>push_off\<close> and \<^verbatim>\<open>pop_off\<close> calls, of any nesting depth,
  started with the nesting counter at zero (its first \<^verbatim>\<open>push_off\<close> is then the outermost
  one) or inside an enclosing critical section with interrupts disabled, runs to its end
  without panic and leaves the interrupt-enable bit of the core and the counter as they
  were before the first call; if interrupts were disabled before, they are disabled after.
\<close>

theorem balanced_restores:
  assumes "balanced xs" "noff (cpus m c) = 0 \<or> \<not> sie m c"
  shows "\<exists>m'. run c xs m = Some (Returned m') \<and> sie m' c = sie m c
           \<and> noff (cpus m' c) = noff (cpus m c)"
proof -
  from assms(1) have n: "nested 0 xs" by (simp add: balanced_def)
  have "if noff (cpus m c) + 0 = 0 then sie m c = sie m c
        else \<not> sie m c \<and> (if noff (cpus m c) = 0 then intena (cpus m c) = sie m c
                          else \<not> sie m c)"
    using assms(2) by auto
  from nested_run[OF n _ this] show ?thesis by auto
qed

theorem balanced_restores_witness:
  "balanced [Push_off, Push_off, Pop_off, Push_off, Pop_off, Pop_off]
   \<and> noff (cpus (machine0\<lparr>sie := (sie machine0)(0 := True)\<rparr>) 0) = 0
   \<and> (\<exists>m'. run 0 [Push_off, Push_off, Pop_off, Push_off, Pop_off, Pop_off]
              (machine0\<lparr>sie := (sie machine0)(0 := True)\<rparr>) = Some (Returned m')
         \<and> sie m' 0 \<and> noff (cpus m' 0) = 0)"
proof -
  have b: "balanced [Push_off, Push_off, Pop_off, Push_off, Pop_off, Pop_off]"
    by (simp add: balanced_def)
  have n: "noff (cpus (machine0\<lparr>sie := (sie machine0)(0 := True)\<rparr>) 0) = 0"
    by (simp add: machine0_fields)
  then have "noff (cpus (machine0\<lparr>sie := (sie machine0)(0 := True)\<rparr>) 0) = 0
      \<or> \<not> sie (machine0\<lparr>sie := (sie machine0)(0 := True)\<rparr>) 0" by simp
  from balanced_restores[OF b this] b n show ?thesis by simp
qed

text \<open>
  C8, as amended. A core starts with its nesting counter at zero, acquires L1 and then
  L2, both calls returning. The counter reads 1 between the two acquires and 2 after the
  second; the release of L2 and then of L1 both return, the counter reads 1 between them
  and 0 after both.
\<close>

theorem nested_locks_counter:
  assumes "noff (cpus m c) = 0"
    and "acquire c l1 es1 m = Some (Returned m1)"
    and "acquire c l2 es2 m1 = Some (Returned m2)"
  shows "noff (cpus m1 c) = 1 \<and> noff (cpus m2 c) = 2
     \<and> (\<exists>m3 m4. release c l2 m2 = Returned m3 \<and> noff (cpus m3 c) = 1
           \<and> release c l1 m3 = Returned m4 \<and> noff (cpus m4 c) = 0)"
proof -
  have n1: "noff (cpus m1 c) = 1" using acquire_shape(2)[OF assms(2)] assms(1) by simp
  have n2: "noff (cpus m2 c) = 2" using acquire_shape(2)[OF assms(3)] n1 by simp
  have h1: "fst (holding c l1 m1)" using acquire_shape(6,7)[OF assms(2)] by (simp add: holding_fst)
  have "\<not> fst (holding c l2 m1)" using acquire_returned(1)[OF assms(3)] .
  with h1 have ne: "l2 \<noteq> l1" by auto
  have h2: "fst (holding c l2 m2)" using acquire_shape(6,7)[OF assms(3)] by (simp add: holding_fst)
  have l1m2: "locks m2 l1 = locks m1 l1" using acquire_shape(8)[OF assms(3)] ne by simp
  have s2: "\<not> sie m2 c" using acquire_shape(4)[OF assms(3)] .
  from release_returns[OF h2 s2] n2 obtain m3 where
    m3: "release c l2 m2 = Returned m3" "noff (cpus m3 c) = 1" "\<not> sie m3 c"
    "locks m3 = (locks m2)(l2 := (locks m2 l2)\<lparr>cpu := None, locked := 0\<rparr>)" by auto
  have h3: "fst (holding c l1 m3)" using h1 l1m2 m3(4) ne by (simp add: holding_fst)
  from release_returns[OF h3 m3(3)] m3(2) obtain m4 where
    "release c l1 m3 = Returned m4" "noff (cpus m4 c) = 0" by auto
  with n1 n2 m3 show ?thesis by blast
qed

theorem nested_locks_counter_witness:
  "\<exists>m1 m2 m3 m4. noff (cpus machine0 0) = 0
     \<and> acquire 0 1 [] machine0 = Some (Returned m1) \<and> noff (cpus m1 0) = 1
     \<and> acquire 0 2 [] m1 = Some (Returned m2) \<and> noff (cpus m2 0) = 2
     \<and> release 0 2 m2 = Returned m3 \<and> noff (cpus m3 0) = 1
     \<and> release 0 1 m3 = Returned m4 \<and> noff (cpus m4 0) = 0"
proof -
  have z: "noff (cpus machine0 0) = 0" by (simp add: machine0_fields)
  from acquire_machine0 obtain m1 where r1: "acquire 0 1 [] machine0 = Some (Returned m1)" by blast
  have f: "locks m1 2 = locks machine0 2" "cpu (locks m1 1) = Some 0"
    using acquire_shape(7,8)[OF r1] by simp_all
  have "\<exists>m2. acquire 0 2 [] m1 = Some (Returned m2)"
    by (rule acquire_free_returns) (simp_all add: holding_fst interfere_simps f machine0_fields)
  then obtain m2 where r2: "acquire 0 2 [] m1 = Some (Returned m2)" by blast
  from nested_locks_counter[OF z r1 r2] z r1 r2 show ?thesis by blast
qed

text \<open>
  C8 as stated has the counter read 2 between the two acquires. On a fresh machine, after
  core 0 has acquired lock 1 and before it acquires a second lock, the counter reads 1.
\<close>

theorem counter_between_acquires_counterexample:
  "counter_after 0 (acquire 0 1 [] machine0) = Some 1
   \<and> counter_after 0 (acquire 0 1 [] machine0) \<noteq> Some 2"
proof -
  from acquire_machine0 obtain m1 where r: "acquire 0 1 [] machine0 = Some (Returned m1)" by blast
  from acquire_shape(2)[OF r] have "noff (cpus m1 0) = 1" by (simp add: machine0_fields)
  with r show ?thesis by (simp add: counter_after_def)
qed

text \<open>
  C9. On a hart whose id is in \<open>0 ..< NCPU\<close>, \<^verbatim>\<open>timerinit\<close> returns, and then the
  comparator register of that hart holds the timer count read at setup plus the interval
  of 1000000 cycles, slot 3 (the fourth) of the hart's scratch area holds the address of
  the comparator register, and slot 4 (the fifth) holds the interval.
\<close>

theorem timerinit_programs:
  assumes "0 \<le> hartid s" "hartid s < int (NCPU p)"
  shows "\<exists>s'. timerinit p s = Some s'
     \<and> mem s' (CLINT_MTIMECMP p (hartid s)) = mem s (CLINT_MTIME p) + 1000000
     \<and> timer_scratch s' (nat (hartid s)) 3 = CLINT_MTIMECMP p (hartid s)
     \<and> timer_scratch s' (nat (hartid s)) 4 = 1000000"
  using assms by (simp add: timerinit_def Let_def scast_interval)

theorem timerinit_programs_witness:
  "0 \<le> hartid hart2 \<and> hartid hart2 < int (NCPU virt)
   \<and> (\<exists>s'. timerinit virt hart2 = Some s'
         \<and> mem s' 0x2004010 = 1005000
         \<and> timer_scratch s' 2 3 = 0x2004010
         \<and> timer_scratch s' 2 4 = 1000000)"
proof -
  have i: "hartid hart2 = 2" by (simp add: hartid_def hart2_def)
  have h: "0 \<le> hartid hart2" "hartid hart2 < int (NCPU virt)"
    by (simp_all add: i virt_def)
  have a: "CLINT_MTIMECMP virt 2 = 0x2004010" by (simp add: virt_def)
  have b: "mem hart2 (CLINT_MTIME virt) = 5000" by (simp add: virt_def hart2_def)
  from timerinit_programs[OF h] obtain s' where "timerinit virt hart2 = Some s'"
    "mem s' (CLINT_MTIMECMP virt (hartid hart2)) = mem hart2 (CLINT_MTIME virt) + 1000000"
    "timer_scratch s' (nat (hartid hart2)) 3 = CLINT_MTIMECMP virt (hartid hart2)"
    "timer_scratch s' (nat (hartid hart2)) 4 = 1000000" by blast
  then have "timerinit virt hart2 = Some s' \<and> mem s' 0x2004010 = 1005000
         \<and> timer_scratch s' 2 3 = 0x2004010 \<and> timer_scratch s' 2 4 = 1000000"
    unfolding i a b by simp
  with h show ?thesis by blast
qed

text \<open>
  C10. \<^verbatim>\<open>initlock\<close> has no failing path and checks nothing: on a lock in any state it
  stores the name, writes 0 to the lock word and clears the owner, in this order, and
  changes nothing else. Afterwards no core holds the lock, so a lock that was held is
  silently freed.
\<close>

theorem initlock_unconditional:
  "locks (initlock c lk nm m) lk = \<lparr>locked = 0, name = nm, cpu = None\<rparr>
   \<and> \<not> fst (holding d lk (initlock c lk nm m))
   \<and> cpus (initlock c lk nm m) = cpus m \<and> sie (initlock c lk nm m) = sie m
   \<and> trace (initlock c lk nm m)
       = trace m @ [(c, Store_name lk nm), (c, Store_locked lk 0), (c, Store_cpu lk None)]"
proof -
  have l: "locks (initlock c lk nm m) lk = \<lparr>locked = 0, name = nm, cpu = None\<rparr>"
    by (simp add: initlock_def store_name_def store_locked_def store_cpu_def emit_def)
  then have h: "\<not> fst (holding d lk (initlock c lk nm m))"
    by (simp add: holding_fst)
  have r: "cpus (initlock c lk nm m) = cpus m" "sie (initlock c lk nm m) = sie m"
    "trace (initlock c lk nm m)
       = trace m @ [(c, Store_name lk nm), (c, Store_locked lk 0), (c, Store_cpu lk None)]"
    by (simp_all add: initlock_def store_name_def store_locked_def store_cpu_def emit_def)
  from l h r show ?thesis by simp
qed

theorem initlock_unconditional_witness:
  "fst (holding 3 7 (machine_held 3 7))
   \<and> locks (initlock 0 7 ''rebuilt'' (machine_held 3 7)) 7 = \<lparr>locked = 0, name = ''rebuilt'', cpu = None\<rparr>
   \<and> \<not> fst (holding 3 7 (initlock 0 7 ''rebuilt'' (machine_held 3 7)))"
  using initlock_unconditional[of 0 7 "''rebuilt''" "machine_held 3 7" 3]
  by (simp add: holding_fst machine_held_fields)

end
